theory Spec2Isabelle
  imports Complex_Main "HOL-Library.Char_ord" "HOL-Library.List_Lexorder" "HOL-Library.Log_Nat"
begin

section \<open>Data model of Log\_Report\_Generator.py\<close>

text \<open>
  The script is a straight-line pandas pipeline. The model starts at the DataFrame that
  \<^verbatim>\<open>pd.read_csv(csvLogFile)\<close> returns (line 152) and ends at the table handed to
  \<^verbatim>\<open>to_csv\<close> (line 254); unzipping, merging files and deleting them are file-system
  plumbing around it.

  A DataFrame is a list of rows, each paired with its index label. The columns the script
  reads are kept: \<^verbatim>\<open>USER_ID\<close>, \<^verbatim>\<open>WHEN_CREATED\<close> and \<^verbatim>\<open>NUM_SUBMITTED_REQUESTS\<close>. The
  merged log repeats the header line of every daily file, so these columns have dtype
  \<^verbatim>\<open>object\<close>: a cell is a text, or missing (NaN, \<open>None\<close> here). The type of the keys
  is any linear order: texts compared as Python compares \<^verbatim>\<open>str\<close>, or numbers. Job sizes
  and their totals are integers; sums are taken exactly, the script's counts being far
  from the bounds of NumPy's integers.
\<close>

datatype error = ValueError | OverflowError | IndexError | IndexingError

record ('u, 'n) log_row =
  USER_ID :: "'u option"
  WHEN_CREATED :: "string option"
  NUM_SUBMITTED_REQUESTS :: 'n

text \<open>The look-up table with the columns of line 107.\<close>

record 'u lookup_row =
  lk_USER_ID :: "'u option"
  User_Name :: "string option"
  Email :: "string option"
  Org :: "string option"

text \<open>A row of \<^verbatim>\<open>dfCPFUsage\<close>: the columns of \<^verbatim>\<open>dfFinalReport\<close>, then those of the look-up table.\<close>

record ('u, 'f) usage_row =
  rep_USER_ID :: 'u
  Total :: int
  Jobs :: nat
  Avg :: 'f
  rep_User_Name :: "string option"
  rep_Email :: "string option"
  rep_Org :: "string option"

text \<open>
  The library functions whose result depends on the text of a cell or on float64
  arithmetic are parameters of the model:
  \<^item> \<open>to_numeric_notnull s\<close>: \<^verbatim>\<open>pd.to_numeric(s, errors='coerce')\<close> is not NaN;
  \<^item> \<open>astype_int s\<close>: the conversion that \<^verbatim>\<open>astype(int)\<close> applies to each text of an
    object column, Python's \<^verbatim>\<open>int(s)\<close> stored as a NumPy integer; the error when it
    raises (ValueError for a text that is no integer literal, OverflowError for one out
    of range);
  \<^item> \<open>mean ns\<close>: the float64 mean of a group, \<open>round1\<close>: \<^verbatim>\<open>round(1)\<close> on a float64.
  A theorem holds for all of them unless it names the functions it is about;
  \<open>float64_mean\<close> and \<open>float64_round1\<close> below are the mean and the rounding in
  IEEE 754 binary64, \<open>plain_numeric\<close> and \<open>plain_int\<close> the conversions on plain
  decimal literals.
\<close>

record 'f pandas =
  to_numeric_notnull :: "string \<Rightarrow> bool"
  astype_int :: "string \<Rightarrow> error + int"
  mean :: "int list \<Rightarrow> 'f"
  round1 :: "'f \<Rightarrow> 'f"

type_synonym 'a frame = "(nat \<times> 'a) list"

type_synonym mask = "(nat \<times> bool) list"

record ('u, 'f) csv_file =
  header :: "string list"
  data :: "('u, 'f) usage_row list"

section \<open>pandas operations the script uses\<close>

text \<open>\<^verbatim>\<open>read_csv\<close> labels the rows 0, 1, 2, ... (a RangeIndex).\<close>

definition read_csv :: "'a list \<Rightarrow> 'a frame" where
  "read_csv rows = zip [0..<length rows] rows"

text \<open>
  \<^verbatim>\<open>df[mask]\<close> and \<^verbatim>\<open>df.loc[mask]\<close> with a boolean Series: the mask is aligned to the labels
  of \<open>df\<close>; a label of \<open>df\<close> that the mask lacks raises IndexingError (unalignable
  boolean Series); otherwise the rows whose label is marked True are kept, in order.
\<close>

fun loc :: "'a frame \<Rightarrow> mask \<Rightarrow> error + 'a frame" where
  "loc [] m = Inr []"
| "loc ((i, r) # df) m =
     (case map_of m i of
        None \<Rightarrow> Inl IndexingError
      | Some b \<Rightarrow>
          (case loc df m of
             Inl e \<Rightarrow> Inl e
           | Inr rest \<Rightarrow> Inr (if b then (i, r) # rest else rest)))"

text \<open>A boolean column computed row by row keeps the labels of its frame.\<close>

definition mask_of :: "('a \<Rightarrow> bool) \<Rightarrow> 'a frame \<Rightarrow> mask" where
  "mask_of p df = map (\<lambda>(i, r). (i, p r)) df"

text \<open>Missing keys are left out by \<^verbatim>\<open>value_counts\<close> and by \<^verbatim>\<open>groupby\<close>.\<close>

fun dropna :: "'a option list \<Rightarrow> 'a list" where
  "dropna [] = []"
| "dropna (None # xs) = dropna xs"
| "dropna (Some x # xs) = x # dropna xs"

text \<open>The distinct values in order of first appearance.\<close>

fun unique :: "'a list \<Rightarrow> 'a list" where
  "unique [] = []"
| "unique (x # xs) = x # unique (filter (\<lambda>y. y \<noteq> x) xs)"

text \<open>
  \<^verbatim>\<open>Series.value_counts()\<close>: one entry per distinct present value with the number of its
  occurrences, most frequent first.
\<close>

definition value_counts :: "'u option list \<Rightarrow> ('u \<times> nat) list" where
  "value_counts col =
     (let ks = dropna col
      in sort_key (\<lambda>(k, c). - int c) (map (\<lambda>k. (k, count_list ks k)) (unique ks)))"

text \<open>\<^verbatim>\<open>groupby('USER_ID')\<close>: the group keys are the distinct present keys, sorted.\<close>

definition group_keys :: "('u::linorder, 'n) log_row list \<Rightarrow> 'u list" where
  "group_keys rows = sort (remdups (dropna (map USER_ID rows)))"

definition group_values :: "('u, int) log_row list \<Rightarrow> 'u \<Rightarrow> int list" where
  "group_values rows k =
     map NUM_SUBMITTED_REQUESTS (filter (\<lambda>r. USER_ID r = Some k) rows)"

definition groupby_sum :: "('u::linorder, int) log_row list \<Rightarrow> ('u \<times> int) list" where
  "groupby_sum rows = map (\<lambda>k. (k, sum_list (group_values rows k))) (group_keys rows)"

definition groupby_mean :: "'f pandas \<Rightarrow> ('u::linorder, int) log_row list \<Rightarrow> ('u \<times> 'f) list" where
  "groupby_mean lib rows = map (\<lambda>k. (k, mean lib (group_values rows k))) (group_keys rows)"

text \<open>
  \<^verbatim>\<open>left.merge(right)\<close> on the one shared column \<^verbatim>\<open>USER_ID\<close>: an inner join that keeps the
  order of the left rows and pairs each with every right row of the same key.
\<close>

definition merge_inner :: "('k \<times> 'a) list \<Rightarrow> ('k \<times> 'b) list \<Rightarrow> ('k \<times> 'a \<times> 'b) list" where
  "merge_inner l r =
     concat (map (\<lambda>(k, a). map (\<lambda>(k', b). (k, a, b)) (filter (\<lambda>(k', b). k' = k) r)) l)"

definition joined :: "'u \<times> int \<times> nat \<times> 'f \<Rightarrow> 'u lookup_row \<Rightarrow> ('u, 'f) usage_row" where
  "joined m d =
     (case m of (k, t, j, a) \<Rightarrow>
        \<lparr>rep_USER_ID = k, Total = t, Jobs = j, Avg = a,
         rep_User_Name = User_Name d, rep_Email = Email d, rep_Org = Org d\<rparr>)"

definition unmatched :: "'u \<times> int \<times> nat \<times> 'f \<Rightarrow> ('u, 'f) usage_row" where
  "unmatched m =
     (case m of (k, t, j, a) \<Rightarrow>
        \<lparr>rep_USER_ID = k, Total = t, Jobs = j, Avg = a,
         rep_User_Name = None, rep_Email = None, rep_Org = None\<rparr>)"

text \<open>
  \<^verbatim>\<open>left.merge(right, how='left')\<close>: every left row is kept, in order; it is paired with
  every right row of the same key, and once with missing values when there is none.
\<close>

definition merge_left ::
  "('u \<times> int \<times> nat \<times> 'f) list \<Rightarrow> 'u lookup_row list \<Rightarrow> ('u, 'f) usage_row list" where
  "merge_left l r =
     concat (map (\<lambda>m. let ds = filter (\<lambda>d. lk_USER_ID d = Some (fst m)) r
                       in if ds = [] then [unmatched m] else map (joined m) ds) l)"

section \<open>The steps of the script\<close>

text \<open>
  Step 5 (lines 161 to 168): keep the rows whose \<^verbatim>\<open>NUM_SUBMITTED_REQUESTS\<close> is numeric, then
  convert the column with \<^verbatim>\<open>astype(int)\<close>, which raises on the first text that
  \<^verbatim>\<open>int\<close> rejects (a missing cell cannot be converted either).
\<close>

definition numeric_cell :: "'f pandas \<Rightarrow> ('u, string option) log_row \<Rightarrow> bool" where
  "numeric_cell lib r =
     (case NUM_SUBMITTED_REQUESTS r of None \<Rightarrow> False | Some s \<Rightarrow> to_numeric_notnull lib s)"

definition int_cell :: "'f pandas \<Rightarrow> ('u, string option) log_row \<Rightarrow> error + int" where
  "int_cell lib r =
     (case NUM_SUBMITTED_REQUESTS r of None \<Rightarrow> Inl ValueError | Some s \<Rightarrow> astype_int lib s)"

fun astype ::
  "'f pandas \<Rightarrow> ('u, string option) log_row frame \<Rightarrow> error + ('u, int) log_row frame" where
  "astype lib [] = Inr []"
| "astype lib ((i, r) # df) =
     (case int_cell lib r of
        Inl e \<Rightarrow> Inl e
      | Inr n \<Rightarrow>
          (case astype lib df of
             Inl e \<Rightarrow> Inl e
           | Inr rest \<Rightarrow>
               Inr ((i, \<lparr>USER_ID = USER_ID r, WHEN_CREATED = WHEN_CREATED r,
                         NUM_SUBMITTED_REQUESTS = n\<rparr>) # rest)))"

definition csvLogFileContent ::
  "'f pandas \<Rightarrow> ('u, string option) log_row frame \<Rightarrow> error + ('u, int) log_row frame" where
  "csvLogFileContent lib df =
     (case loc df (mask_of (numeric_cell lib) df) of
        Inl e \<Rightarrow> Inl e
      | Inr kept \<Rightarrow> astype lib kept)"

text \<open>
  Step 6 (lines 176 to 186). The two prints read the first and the last label of the
  frame and raise IndexError when it has no row. The day of a row is
  \<^verbatim>\<open>WHEN_CREATED.str.split(' ').str[0]\<close>, the text before the first blank; a comparison
  with a missing day is False. The second mask is computed on the untrimmed frame and
  applied to the trimmed one.
\<close>

definition day :: "('u, 'n) log_row \<Rightarrow> string option" where
  "day r = map_option (takeWhile (\<lambda>c. c \<noteq> CHR '' '')) (WHEN_CREATED r)"

definition ge_start :: "string \<Rightarrow> ('u, 'n) log_row \<Rightarrow> bool" where
  "ge_start startDate r = (case day r of None \<Rightarrow> False | Some d \<Rightarrow> d \<ge> startDate)"

definition le_end :: "string \<Rightarrow> ('u, 'n) log_row \<Rightarrow> bool" where
  "le_end endDate r = (case day r of None \<Rightarrow> False | Some d \<Rightarrow> d \<le> endDate)"

definition csvLogFileContentTrimmed ::
  "string \<Rightarrow> string \<Rightarrow> ('u, 'n) log_row frame \<Rightarrow> error + ('u, 'n) log_row frame" where
  "csvLogFileContentTrimmed startDate endDate df =
     (case loc df (mask_of (ge_start startDate) df) of
        Inl e \<Rightarrow> Inl e
      | Inr trimmed \<Rightarrow> loc trimmed (mask_of (le_end endDate) df))"

text \<open>Step 7 (lines 195 to 205).\<close>

definition seriesJobSubmissions :: "('u, int) log_row list \<Rightarrow> ('u \<times> nat) list" where
  "seriesJobSubmissions trimmed = value_counts (map USER_ID trimmed)"

definition seriesAveragePerJob ::
  "'f pandas \<Rightarrow> ('u::linorder, int) log_row list \<Rightarrow> ('u \<times> 'f) list" where
  "seriesAveragePerJob lib trimmed = groupby_mean lib trimmed"

definition seriesTotalAddresses :: "('u::linorder, int) log_row list \<Rightarrow> ('u \<times> int) list" where
  "seriesTotalAddresses trimmed = groupby_sum trimmed"

text \<open>Step 8 (lines 217 to 231): two inner merges, the averages rounded before the second.\<close>

definition dfFinalReport ::
  "'f pandas \<Rightarrow> ('u::linorder, int) log_row list \<Rightarrow> ('u \<times> int \<times> nat \<times> 'f) list" where
  "dfFinalReport lib trimmed =
     map (\<lambda>(k, (t, j), a). (k, t, j, a))
       (merge_inner
          (merge_inner (seriesTotalAddresses trimmed) (seriesJobSubmissions trimmed))
          (map (\<lambda>(k, a). (k, round1 lib a)) (seriesAveragePerJob lib trimmed)))"

text \<open>Step 9 (line 247).\<close>

definition dfCPFUsage ::
  "'f pandas \<Rightarrow> ('u::linorder, int) log_row list \<Rightarrow> 'u lookup_row list \<Rightarrow> ('u, 'f) usage_row list" where
  "dfCPFUsage lib trimmed dfLookUpTable = merge_left (dfFinalReport lib trimmed) dfLookUpTable"

text \<open>Step 10 (line 254): the header line, then one line per row.\<close>

definition to_csv :: "('u, 'f) usage_row list \<Rightarrow> ('u, 'f) csv_file" where
  "to_csv rows =
     \<lparr>header = [''USER_ID'', ''Total'', ''Jobs'', ''Avg'', ''User_Name'', ''Email'', ''Org''],
      data = rows\<rparr>"

text \<open>
  The whole script from line 152 on: the rows of the merged log, the rows of the look-up
  table and the two date arguments, which are used as the texts they are (lines 77, 78).
\<close>

definition Log_Report_Generator ::
  "'f pandas \<Rightarrow> string \<Rightarrow> string \<Rightarrow> ('u::linorder, string option) log_row list \<Rightarrow>
   'u lookup_row list \<Rightarrow> error + ('u, 'f) csv_file" where
  "Log_Report_Generator lib startDate endDate merged lookup =
     (case csvLogFileContent lib (read_csv merged) of
        Inl e \<Rightarrow> Inl e
      | Inr content \<Rightarrow>
          if content = [] then Inl IndexError
          else (case csvLogFileContentTrimmed startDate endDate content of
                  Inl e \<Rightarrow> Inl e
                | Inr trimmed \<Rightarrow> Inr (to_csv (dfCPFUsage lib (map snd trimmed) lookup))))"

section \<open>float64 arithmetic\<close>

text \<open>
  \<^verbatim>\<open>groupby(...).mean()\<close> and \<^verbatim>\<open>round(1)\<close> compute in IEEE 754 binary64. A finite
  double is a rational number here. \<open>rne\<close> rounds to the nearest integer, ties to
  even (C's \<^verbatim>\<open>rint\<close>); \<open>expo x\<close> is the binary exponent of a positive \<open>x\<close>;
  \<open>fl x\<close> is the double nearest to \<open>x\<close>, ties to even, with 53 significant bits
  (overflow and subnormal numbers do not arise from 64-bit integers and their quotients).

  The group mean adds the job sizes, converted to doubles, in row order and divides by
  the number of rows; \<^verbatim>\<open>round(1)\<close> is NumPy's: multiply by 10, \<^verbatim>\<open>rint\<close>, divide by 10. The
  mean of no rows does not occur: a group has at least one row.
\<close>

definition rne :: "rat \<Rightarrow> int" where
  "rne x =
     (let f = \<lfloor>x\<rfloor>; r = x - of_int f
      in if r < 1 / 2 then f else if 1 / 2 < r then f + 1
         else if even f then f else f + 1)"

definition expo :: "rat \<Rightarrow> int" where
  "expo x =
     (case quotient_of x of (a, b) \<Rightarrow>
        let e = bitlen a - bitlen b in if 2 powi e \<le> x then e else e - 1)"

definition fl :: "rat \<Rightarrow> rat" where
  "fl x =
     (if x = 0 then 0
      else let u = 2 powi (expo \<bar>x\<bar> - 52) in of_int (rne (x / u)) * u)"

definition float64_sum :: "int list \<Rightarrow> rat" where
  "float64_sum ns = foldl (\<lambda>acc v. fl (acc + fl (of_int v))) 0 ns"

definition float64_mean :: "int list \<Rightarrow> rat" where
  "float64_mean ns = fl (float64_sum ns / fl (of_nat (length ns)))"

definition float64_round1 :: "rat \<Rightarrow> rat" where
  "float64_round1 x = fl (of_int (rne (fl (x * 10))) / 10)"

section \<open>A concrete instance of the library functions\<close>

text \<open>
  For evaluating the script on concrete tables: plain decimal literals (an optional minus
  sign, digits, and for \<open>plain_numeric\<close> an optional fraction), on which
  \<^verbatim>\<open>to_numeric\<close> and \<^verbatim>\<open>int\<close> behave as below, with 64-bit integers, and float64
  arithmetic for the mean and its rounding.
\<close>

definition is_digit :: "char \<Rightarrow> bool" where
  "is_digit c = (CHR ''0'' \<le> c \<and> c \<le> CHR ''9'')"

definition digits :: "string \<Rightarrow> bool" where
  "digits s = (s \<noteq> [] \<and> list_all is_digit s)"

definition nat_of_digits :: "string \<Rightarrow> nat" where
  "nat_of_digits s = foldl (\<lambda>n c. 10 * n + (of_char c - 48)) 0 s"

definition unsigned :: "string \<Rightarrow> string" where
  "unsigned s = (if s \<noteq> [] \<and> hd s = CHR ''-'' then tl s else s)"

definition int64 :: "int \<Rightarrow> error + int" where
  "int64 n = (if - (2 ^ 63) \<le> n \<and> n < 2 ^ 63 then Inr n else Inl OverflowError)"

definition plain_int :: "string \<Rightarrow> error + int" where
  "plain_int s =
     (if digits s then int64 (int (nat_of_digits s))
      else if digits (unsigned s) then int64 (- int (nat_of_digits (unsigned s)))
      else Inl ValueError)"

definition plain_numeric :: "string \<Rightarrow> bool" where
  "plain_numeric s =
     (let rest = dropWhile is_digit (unsigned s)
      in takeWhile is_digit (unsigned s) \<noteq> [] \<and>
         (rest = [] \<or> (hd rest = CHR ''.'' \<and> digits (tl rest))))"

definition plain_pandas :: "rat pandas" where
  "plain_pandas =
     \<lparr>to_numeric_notnull = plain_numeric,
      astype_int = plain_int,
      mean = float64_mean,
      round1 = float64_round1\<rparr>"

definition log_line :: "string \<Rightarrow> string \<Rightarrow> string \<Rightarrow> (string, string option) log_row" where
  "log_line u w n = \<lparr>USER_ID = Some u, WHEN_CREATED = Some w, NUM_SUBMITTED_REQUESTS = Some n\<rparr>"

text \<open>The header line of a daily file, which the merge leaves among the rows.\<close>

definition header_line :: "(string, string option) log_row" where
  "header_line = log_line ''USER_ID'' ''WHEN_CREATED'' ''NUM_SUBMITTED_REQUESTS''"

section \<open>The script without index labels\<close>

text \<open>
  \<open>astype_rows\<close> is \<open>astype\<close> on rows without their labels; the script's result is
  expressed through it in \<open>Log_Report_Generator_eq\<close>.
\<close>

fun astype_rows ::
  "'f pandas \<Rightarrow> ('u, string option) log_row list \<Rightarrow> error + ('u, int) log_row list" where
  "astype_rows lib [] = Inr []"
| "astype_rows lib (r # rs) =
     (case int_cell lib r of
        Inl e \<Rightarrow> Inl e
      | Inr n \<Rightarrow>
          (case astype_rows lib rs of
             Inl e \<Rightarrow> Inl e
           | Inr rest \<Rightarrow>
               Inr (\<lparr>USER_ID = USER_ID r, WHEN_CREATED = WHEN_CREATED r,
                     NUM_SUBMITTED_REQUESTS = n\<rparr> # rest)))"

definition in_window :: "string \<Rightarrow> string \<Rightarrow> ('u, 'n) log_row \<Rightarrow> bool" where
  "in_window startDate endDate r = (ge_start startDate r \<and> le_end endDate r)"

section \<open>Calendar dates as the script expects them\<close>







definition job :: "string \<Rightarrow> string \<Rightarrow> int \<Rightarrow> (string, int) log_row" where
  "job u w n = \<lparr>USER_ID = Some u, WHEN_CREATED = Some w, NUM_SUBMITTED_REQUESTS = n\<rparr>"


section \<open>Sample tables\<close>

definition alice :: "string lookup_row" where
  "alice = \<lparr>lk_USER_ID = Some ''u1'', User_Name = Some ''Alice'', Email = Some ''a@x.com'',
            Org = Some ''OrgA''\<rparr>"

definition alice_again :: "string lookup_row" where
  "alice_again = \<lparr>lk_USER_ID = Some ''u1'', User_Name = Some ''Alice B'', Email = Some ''ab@x.com'',
            Org = Some ''OrgB''\<rparr>"

definition carol :: "string lookup_row" where
  "carol = \<lparr>lk_USER_ID = Some ''u9'', User_Name = Some ''Carol'', Email = Some ''c@x.com'',
            Org = Some ''OrgC''\<rparr>"

definition sample_jobs :: "(string, int) log_row list" where
  "sample_jobs =
     [job ''u1'' ''2019-09-01 00:00:00.000'' 5,
      job ''u1'' ''2019-09-02 00:00:00.000'' 3,
      job ''u2'' ''2019-09-01 00:00:00.000'' 10]"

definition anonymous_job :: "(string, int) log_row" where
  "anonymous_job = \<lparr>USER_ID = None, WHEN_CREATED = Some ''2019-09-01 00:00:00.000'',
                    NUM_SUBMITTED_REQUESTS = 5\<rparr>"

definition huge_job :: "(string, int) log_row" where
  "huge_job = job ''u1'' ''2019-09-01 00:00:00.000'' 9007199254740993"

definition sample_log :: "(string, string option) log_row list" where
  "sample_log =
     [log_line ''u1'' ''2019-09-01 00:00:00.000'' ''5'',
      header_line,
      log_line ''u1'' ''2019-09-02 00:00:00.000'' ''3'',
      log_line ''u2'' ''2019-09-01 00:00:00.000'' ''10'']"

definition sample_csv :: "(string, rat) csv_file" where
  "sample_csv =
     \<lparr>header = [''USER_ID'', ''Total'', ''Jobs'', ''Avg'', ''User_Name'', ''Email'', ''Org''],
      data =
        [\<lparr>rep_USER_ID = ''u1'', Total = 8, Jobs = 2, Avg = 4,
          rep_User_Name = Some ''Alice'', rep_Email = Some ''a@x.com'', rep_Org = Some ''OrgA''\<rparr>,
         \<lparr>rep_USER_ID = ''u2'', Total = 10, Jobs = 1, Avg = 10,
          rep_User_Name = None, rep_Email = None, rep_Org = None\<rparr>]\<rparr>"


section \<open>Frames, masks and labels\<close>

lemma map_of_mask_of:
  "distinct (map fst df0) \<Longrightarrow> (i, r) \<in> set df0 \<Longrightarrow> map_of (mask_of p df0) i = Some (p r)"
  by (induction df0) (auto simp: mask_of_def rev_image_eqI)

lemma loc_mask_of:
  "distinct (map fst df0) \<Longrightarrow> set df \<subseteq> set df0 \<Longrightarrow>
   loc df (mask_of p df0) = Inr (filter (\<lambda>(i, r). p r) df)"
  by (induction df) (auto simp: map_of_mask_of)

lemma fst_read_csv: "map fst (read_csv rows) = [0..<length rows]"
  by (simp add: read_csv_def)

lemma snd_read_csv: "map snd (read_csv rows) = rows"
  by (simp add: read_csv_def)

lemma distinct_read_csv: "distinct (map fst (read_csv rows))"
  by (simp add: fst_read_csv)

lemma set_unique: "set (unique xs) = set xs"
  by (induction xs rule: unique.induct) auto

lemma distinct_unique: "distinct (unique xs)"
  by (induction xs rule: unique.induct) (auto simp: set_unique)

lemma trimmed_eq:
  "distinct (map fst df) \<Longrightarrow>
   csvLogFileContentTrimmed s e df = Inr (filter (\<lambda>(i, r). ge_start s r \<and> le_end e r) df)"
proof -
  assume d: "distinct (map fst df)"
  have 1: "loc df (mask_of (ge_start s) df) = Inr (filter (\<lambda>(i, r). ge_start s r) df)"
    using d by (simp add: loc_mask_of)
  have 2: "loc (filter (\<lambda>(i, r). ge_start s r) df) (mask_of (le_end e) df)
           = Inr (filter (\<lambda>(i, r). le_end e r) (filter (\<lambda>(i, r). ge_start s r) df))"
    using d by (intro loc_mask_of) auto
  show ?thesis
    unfolding csvLogFileContentTrimmed_def 1 using 2
    by (auto simp: case_prod_unfold intro: filter_cong)
qed

section \<open>Aggregation and merges\<close>

lemma filter_key_unique:
  "distinct (map fst r) \<Longrightarrow> (k, b) \<in> set r \<Longrightarrow> filter (\<lambda>(k', b'). k' = k) r = [(k, b)]"
proof (induction r)
  case Nil
  then show ?case by simp
next
  case (Cons x r)
  obtain k' b' where x: "x = (k', b')" by (cases x)
  show ?case
  proof (cases "k' = k")
    case True
    with Cons.prems x have "b' = b" and "\<forall>y \<in> set r. fst y \<noteq> k"
      by (auto simp: rev_image_eqI)
    then have "filter (\<lambda>(k', b'). k' = k) r = []"
      by (auto simp: filter_empty_conv)
    with True x \<open>b' = b\<close> show ?thesis by simp
  next
    case False
    with Cons x show ?thesis by auto
  qed
qed

lemma merge_inner_keys:
  assumes "distinct (map fst r)" and "\<forall>k \<in> set ks. (k, g k) \<in> set r"
  shows "merge_inner (map (\<lambda>k. (k, f k)) ks) r = map (\<lambda>k. (k, f k, g k)) ks"
  using assms(2)
proof (induction ks)
  case Nil
  then show ?case by (simp add: merge_inner_def)
next
  case (Cons k ks)
  have "filter (\<lambda>(k', b'). k' = k) r = [(k, g k)]"
    using Cons.prems assms(1) by (simp add: filter_key_unique)
  moreover have "merge_inner (map (\<lambda>k. (k, f k)) ks) r = map (\<lambda>k. (k, f k, g k)) ks"
    using Cons by simp
  ultimately show ?case by (simp add: merge_inner_def)
qed

lemma set_value_counts:
  "set (value_counts col) = (\<lambda>k. (k, count_list (dropna col) k)) ` set (dropna col)"
  by (simp add: value_counts_def Let_def set_unique)

lemma distinct_value_counts: "distinct (map fst (value_counts col))"
proof -
  let ?xs = "map (\<lambda>k. (k, count_list (dropna col) k)) (unique (dropna col))"
  have "distinct (map fst ?xs)"
    by (simp add: comp_def distinct_unique)
  then have "distinct (map fst (sort_key (\<lambda>(k, c). - int c) ?xs))"
    by (simp only: distinct_map distinct_sort set_sort) 
  then show ?thesis
    by (simp add: value_counts_def Let_def)
qed

lemma set_group_keys: "set (group_keys rows) = set (dropna (map USER_ID rows))"
  by (simp add: group_keys_def)

lemma distinct_group_keys: "distinct (group_keys rows)"
  by (simp add: group_keys_def)


lemma count_list_dropna:
  "count_list (dropna (map USER_ID rows)) k = length (filter (\<lambda>r. USER_ID r = Some k) rows)"
proof (induction rows)
  case Nil
  then show ?case by simp
next
  case (Cons r rows)
  then show ?case by (cases "USER_ID r") auto
qed

lemma dfFinalReport_eq:
  "dfFinalReport lib trimmed =
     map (\<lambda>k. (k, sum_list (group_values trimmed k),
               length (filter (\<lambda>r. USER_ID r = Some k) trimmed),
               round1 lib (mean lib (group_values trimmed k))))
       (group_keys trimmed)"
proof -
  let ?ks = "group_keys trimmed"
  let ?t = "\<lambda>k. sum_list (group_values trimmed k)"
  let ?j = "\<lambda>k. length (filter (\<lambda>r. USER_ID r = Some k) trimmed)"
  let ?a = "\<lambda>k. round1 lib (mean lib (group_values trimmed k))"
  have 1: "merge_inner (seriesTotalAddresses trimmed) (seriesJobSubmissions trimmed)
           = map (\<lambda>k. (k, ?t k, ?j k)) ?ks"
    unfolding seriesTotalAddresses_def groupby_sum_def seriesJobSubmissions_def
    by (rule merge_inner_keys)
       (auto simp: distinct_value_counts set_value_counts set_group_keys count_list_dropna)
  let ?r = "map (\<lambda>(k, a). (k, round1 lib a)) (seriesAveragePerJob lib trimmed)"
  have r: "?r = map (\<lambda>k. (k, ?a k)) ?ks"
    by (simp add: seriesAveragePerJob_def groupby_mean_def)
  have 2: "merge_inner (map (\<lambda>k. (k, ?t k, ?j k)) ?ks) ?r
           = map (\<lambda>k. (k, (?t k, ?j k), ?a k)) ?ks"
    unfolding r
    by (rule merge_inner_keys) (auto simp: comp_def distinct_group_keys)
  show ?thesis
    unfolding dfFinalReport_def 1 2 by simp
qed

lemma astype_snd:
  "(case astype lib df of Inl e \<Rightarrow> Inl e | Inr d \<Rightarrow> Inr (map snd d))
   = astype_rows lib (map snd df)"
  by (induction df) (auto split: sum.splits)

lemma astype_Inl: "astype lib df = Inl e \<Longrightarrow> astype_rows lib (map snd df) = Inl e"
  using astype_snd [of lib df] by simp

lemma astype_fst: "astype lib df = Inr d \<Longrightarrow> map fst d = map fst df"
  by (induction df arbitrary: d) (auto split: sum.splits)

lemma astype_Inr:
  "astype lib df = Inr d \<Longrightarrow>
   astype_rows lib (map snd df) = Inr (map snd d) \<and> map fst d = map fst df"
  using astype_snd [of lib df] astype_fst [of lib df d] by simp

lemma snd_filter: "map snd (filter (\<lambda>(i, r). p r) df) = filter p (map snd df)"
  by (induction df) auto

lemma distinct_fst_filter: "distinct (map fst df) \<Longrightarrow> distinct (map fst (filter p df))"
  by (simp add: distinct_map_filter)

lemma csvLogFileContent_eq:
  "distinct (map fst df) \<Longrightarrow>
   csvLogFileContent lib df = astype lib (filter (\<lambda>(i, r). numeric_cell lib r) df)"
  by (simp add: csvLogFileContent_def loc_mask_of)

lemma Log_Report_Generator_eq:
  "Log_Report_Generator lib s e merged lookup =
     (case astype_rows lib (filter (numeric_cell lib) merged) of
        Inl err \<Rightarrow> Inl err
      | Inr recs \<Rightarrow>
          if recs = [] then Inl IndexError
          else Inr (to_csv (dfCPFUsage lib
                 (filter (in_window s e) recs) lookup)))"
proof -
  let ?kept = "filter (\<lambda>(i, r). numeric_cell lib r) (read_csv merged)"
  have c: "csvLogFileContent lib (read_csv merged) = astype lib ?kept"
    by (simp add: csvLogFileContent_eq distinct_read_csv)
  have k: "map snd ?kept = filter (numeric_cell lib) merged"
    by (simp add: snd_filter snd_read_csv)
  have w: "in_window s e = (\<lambda>r. ge_start s r \<and> le_end e r)"
    by (simp add: in_window_def fun_eq_iff)
  show ?thesis
  proof (cases "astype lib ?kept")
    case (Inl err)
    then have "astype_rows lib (filter (numeric_cell lib) merged) = Inl err"
      using astype_Inl [of lib ?kept err] k by simp
    with Inl c show ?thesis by (simp add: Log_Report_Generator_def)
  next
    case (Inr content)
    from astype_Inr [OF Inr] k
    have r: "astype_rows lib (filter (numeric_cell lib) merged) = Inr (map snd content)"
      and f: "map fst content = map fst ?kept" by simp_all
    have "distinct (map fst content)"
      unfolding f by (rule distinct_fst_filter) (rule distinct_read_csv)
    then have t: "csvLogFileContentTrimmed s e content
                  = Inr (filter (\<lambda>(i, r). ge_start s r \<and> le_end e r) content)"
      by (rule trimmed_eq)
    show ?thesis
      using Inr c r t by (simp add: Log_Report_Generator_def snd_filter w)
  qed
qed




section \<open>Zero-padded dates\<close>









lemma in_window_day:
  "in_window s e r \<longleftrightarrow> (\<exists>d. day r = Some d \<and> s \<le> d \<and> d \<le> e)"
  by (cases "day r") (simp_all add: in_window_def ge_start_def le_end_def)


section \<open>Keys and counts of the report\<close>

lemma filter_fst_map:
  "distinct ks \<Longrightarrow> k \<in> set ks \<Longrightarrow>
   filter (\<lambda>m. fst m = k) (map (\<lambda>k. (k, f k)) ks) = [(k, f k)]"
  by (induction ks) (auto simp: filter_empty_conv)




lemma sum_list_insort_key:
  "sum_list (map g (insort_key f x xs)) = g x + sum_list (map g xs)"
  for g :: "'a \<Rightarrow> nat"
  by (induction xs) auto

lemma sum_list_sort_key: "sum_list (map g (sort_key f xs)) = sum_list (map g xs)"
  for g :: "'a \<Rightarrow> nat"
  by (induction xs) (auto simp: sum_list_insort_key)

lemma sum_count_unique: "sum_list (map (count_list xs) (unique xs)) = length xs"
proof -
  have "sum_list (map (count_list xs) (unique xs)) = sum (count_list xs) (set (unique xs))"
    by (simp add: sum_list_distinct_conv_sum_set distinct_unique)
  also have "\<dots> = length xs"
    by (simp add: set_unique sum_count_set)
  finally show ?thesis .
qed

lemma sum_value_counts: "sum_list (map snd (value_counts col)) = length (dropna col)"
  by (simp add: value_counts_def Let_def sum_list_sort_key comp_def sum_count_unique)

lemma length_dropna: "length (dropna col) = length (filter (\<lambda>c. c \<noteq> None) col)"
  by (induction col rule: dropna.induct) auto

section \<open>Outcome of the whole script\<close>

lemma content_labels:
  "csvLogFileContent lib (read_csv merged) = Inr content \<Longrightarrow> distinct (map fst content)"
proof -
  assume c: "csvLogFileContent lib (read_csv merged) = Inr content"
  let ?kept = "filter (\<lambda>(i, r). numeric_cell lib r) (read_csv merged)"
  have "astype lib ?kept = Inr content"
    using c by (simp add: csvLogFileContent_eq distinct_read_csv)
  then have "map fst content = map fst ?kept"
    by (rule astype_fst)
  then show ?thesis
    by (simp add: distinct_fst_filter distinct_read_csv)
qed

lemma content_rows:
  "(case csvLogFileContent lib (read_csv merged) of Inl e \<Rightarrow> Inl e | Inr c \<Rightarrow> Inr (map snd c))
   = astype_rows lib (filter (numeric_cell lib) merged)"
  using astype_snd [of lib "filter (\<lambda>(i, r). numeric_cell lib r) (read_csv merged)"]
  by (simp add: csvLogFileContent_eq distinct_read_csv snd_filter snd_read_csv)

lemma Log_Report_Generator_Inr:
  assumes "csvLogFileContent lib (read_csv merged) = Inr content" and "content \<noteq> []"
  shows "Log_Report_Generator lib s e merged lookup =
         Inr (to_csv (dfCPFUsage lib (filter (in_window s e) (map snd content)) lookup))"
proof -
  have "astype_rows lib (filter (numeric_cell lib) merged) = Inr (map snd content)"
    using content_rows [of lib merged] assms(1) by simp
  with assms(2) show ?thesis
    by (simp add: Log_Report_Generator_eq)
qed


lemma reversed_window_empty:
  "endDate < startDate \<Longrightarrow> filter (in_window startDate endDate) recs = []"
  by (auto simp: filter_empty_conv in_window_day)

lemma dfCPFUsage_Nil: "dfCPFUsage lib [] lookup = []"
  by (simp add: dfCPFUsage_def dfFinalReport_eq group_keys_def merge_left_def)

lemma empty_window_report:
  assumes "csvLogFileContent lib (read_csv merged) = Inr content" and "content \<noteq> []"
    and "filter (in_window s e) (map snd content) = []"
  shows "Log_Report_Generator lib s e merged lookup =
         Inr \<lparr>header = [''USER_ID'', ''Total'', ''Jobs'', ''Avg'', ''User_Name'', ''Email'', ''Org''],
              data = []\<rparr>"
  using Log_Report_Generator_Inr [OF assms(1,2), of s e lookup] assms(3)
  by (simp add: dfCPFUsage_Nil to_csv_def)

lemma metrics_per_user:
  assumes "u \<in> set (dropna (map USER_ID trimmed))"
  shows "filter (\<lambda>m. fst m = u) (dfFinalReport lib trimmed) =
           [(u, sum_list (group_values trimmed u),
                length (filter (\<lambda>r. USER_ID r = Some u) trimmed),
                round1 lib (mean lib (group_values trimmed u)))]"
proof -
  have "u \<in> set (group_keys trimmed)"
    using assms by (simp add: set_group_keys)
  then show ?thesis
    unfolding dfFinalReport_eq by (simp add: filter_fst_map distinct_group_keys)
qed

section \<open>Rounding to float64\<close>

lemma rne_of_int [simp]: "rne (of_int k) = k"
  by (simp add: rne_def)

lemma rne_error: "\<bar>of_int (rne x) - x\<bar> \<le> 1 / 2"
proof -
  have "of_int \<lfloor>x\<rfloor> \<le> x" "x < of_int \<lfloor>x\<rfloor> + 1"
    by linarith+
  then show ?thesis
    by (auto simp: rne_def Let_def)
qed

lemma rne_close:
  assumes "\<bar>x - of_int k\<bar> < 1 / 2"
  shows "rne x = k"
proof -
  have e: "\<bar>of_int (rne x) - x\<bar> \<le> 1 / 2"
    by (rule rne_error)
  have "\<bar>(of_int (rne x) :: rat) - of_int k\<bar> < 1"
    using assms e by linarith
  then have "\<bar>(of_int (rne x - k) :: rat)\<bar> < 1"
    by simp
  then have "\<bar>rne x - k\<bar> < 1"
    by (metis of_int_abs of_int_less_1_iff)
  then show ?thesis by linarith
qed

lemma rne_even:
  assumes "even m" and "\<bar>x - of_int m\<bar> \<le> 1 / 2"
  shows "rne x = m"
proof (cases "\<bar>x - of_int m\<bar> < 1 / 2")
  case True
  then show ?thesis by (rule rne_close)
next
  case False
  with assms(2) have "x = of_int m + 1 / 2 \<or> x = of_int m - 1 / 2"
    by linarith
  then show ?thesis
  proof
    assume x: "x = of_int m + 1 / 2"
    then have "\<lfloor>x\<rfloor> = m" by linarith
    with x assms(1) show ?thesis by (simp add: rne_def Let_def)
  next
    assume x: "x = of_int m - 1 / 2"
    then have "\<lfloor>x\<rfloor> = m - 1" by linarith
    with x assms(1) show ?thesis by (simp add: rne_def Let_def)
  qed
qed

lemma expo_bounds:
  assumes "0 < x"
  shows "2 powi expo x \<le> x \<and> x < 2 powi (expo x + 1)"
proof -
  obtain a b where q: "quotient_of x = (a, b)" by (cases "quotient_of x")
  then have b: "0 < b" by (rule quotient_of_denom_pos)
  have x: "x = of_int a / of_int b"
    using q by (metis Fract_of_int_quotient Fract_quotient_of fst_conv snd_conv)
  have a: "0 < a"
    using assms b x by (simp add: zero_less_divide_iff)
  define la lb where "la = bitlen a" and "lb = bitlen b"
  have la: "2 ^ nat (la - 1) \<le> a" "a < 2 ^ nat la"
    using bitlen_bounds [OF a] by (simp_all add: la_def)
  have lb: "2 ^ nat (lb - 1) \<le> b" "b < 2 ^ nat lb"
    using bitlen_bounds [OF b] by (simp_all add: lb_def)
  have pa: "1 \<le> la" and pb: "1 \<le> lb"
    using a b by (auto simp: la_def lb_def bitlen_alt_def)
  have ra: "(2::rat) powi (la - 1) \<le> of_int a" "of_int a < (2::rat) powi la"
  proof -
    have "(2::rat) powi (la - 1) = of_int (2 ^ nat (la - 1))"
      using pa by (simp add: power_int_def)
    also have "\<dots> \<le> of_int a" using la(1) by (simp only: of_int_le_iff)
    finally show "(2::rat) powi (la - 1) \<le> of_int a" .
    have "(of_int a :: rat) < of_int (2 ^ nat la)" using la(2) by (simp only: of_int_less_iff)
    also have "\<dots> = 2 powi la" using pa by (simp add: power_int_def)
    finally show "of_int a < (2::rat) powi la" .
  qed
  have rb: "(2::rat) powi (lb - 1) \<le> of_int b" "of_int b < (2::rat) powi lb"
  proof -
    have "(2::rat) powi (lb - 1) = of_int (2 ^ nat (lb - 1))"
      using pb by (simp add: power_int_def)
    also have "\<dots> \<le> of_int b" using lb(1) by (simp only: of_int_le_iff)
    finally show "(2::rat) powi (lb - 1) \<le> of_int b" .
    have "(of_int b :: rat) < of_int (2 ^ nat lb)" using lb(2) by (simp only: of_int_less_iff)
    also have "\<dots> = 2 powi lb" using pb by (simp add: power_int_def)
    finally show "of_int b < (2::rat) powi lb" .
  qed
  have bpos: "(0::rat) < of_int b" using b by simp
  have up: "x < 2 powi (la - lb + 1)"
  proof -
    have "of_int a < (2::rat) powi la" by (rule ra)
    also have "\<dots> = 2 powi (la - lb + 1) * 2 powi (lb - 1)"
      by (simp add: power_int_add [symmetric])
    also have "\<dots> \<le> 2 powi (la - lb + 1) * of_int b"
      using rb(1) by (intro mult_left_mono) simp_all
    finally show ?thesis
      using bpos by (simp add: x pos_divide_less_eq)
  qed
  have lo: "2 powi (la - lb - 1) < x"
  proof -
    have "(2::rat) powi (la - lb - 1) * of_int b < 2 powi (la - lb - 1) * 2 powi lb"
      using rb(2) by (intro mult_strict_left_mono) simp_all
    also have "\<dots> = 2 powi (la - 1)"
      by (simp add: power_int_add [symmetric])
    also have "\<dots> \<le> of_int a" by (rule ra)
    finally show ?thesis
      using bpos by (simp add: x pos_less_divide_eq)
  qed
  have e: "expo x = (if 2 powi (la - lb) \<le> x then la - lb else la - lb - 1)"
    by (simp add: expo_def q la_def lb_def Let_def)
  show ?thesis
  proof (cases "2 powi (la - lb) \<le> x")
    case True
    with e up show ?thesis by simp
  next
    case False
    with e lo show ?thesis by (simp add: less_eq_rat_def)
  qed
qed

lemma two_powi_less_imp: "(2::rat) powi a < 2 powi b \<Longrightarrow> a < b"
  using power_int_increasing [of b a "2::rat"] by (cases "a < b") auto

lemma expo_unique:
  assumes "0 < x" and "2 powi e \<le> x" and "x < 2 powi (e + 1)"
  shows "expo x = e"
proof -
  have b: "2 powi expo x \<le> x" "x < 2 powi (expo x + 1)"
    using expo_bounds [OF assms(1)] by simp_all
  have "(2::rat) powi e < 2 powi (expo x + 1)"
    using assms(2) b(2) by linarith
  then have 1: "e < expo x + 1"
    by (rule two_powi_less_imp)
  have "(2::rat) powi expo x < 2 powi (e + 1)"
    using assms(3) b(1) by linarith
  then have 2: "expo x < e + 1"
    by (rule two_powi_less_imp)
  from 1 2 show ?thesis by linarith
qed

lemma fl_pos: "0 < x \<Longrightarrow> fl x = of_int (rne (x / 2 powi (expo x - 52))) * 2 powi (expo x - 52)"
  by (simp add: fl_def Let_def)

lemma two_powi_pos [simp]: "(0::rat) < 2 powi e"
  by (simp add: zero_less_power_int)

lemma two_powi_half: "(2::rat) powi (e - 53) = 2 powi (e - 52) / 2"
  using power_int_add [of "2::rat" "e - 53" 1] by simp

lemma fl_abs_error:
  assumes "0 < x"
  shows "\<bar>fl x - x\<bar> \<le> 2 powi (expo x - 53)"
proof -
  define u :: rat where "u = 2 powi (expo x - 52)"
  define a :: rat where "a = of_int (rne (x / u))"
  have u: "0 < u" by (simp add: u_def)
  have f: "fl x = a * u"
    using assms by (simp add: fl_pos u_def a_def)
  have "a * u - x = (a - x / u) * u"
    using u by (simp add: algebra_simps)
  then have "\<bar>fl x - x\<bar> = \<bar>a - x / u\<bar> * u"
    using u by (simp add: f abs_mult)
  also have "\<dots> \<le> 1 / 2 * u"
    unfolding a_def using u by (intro mult_right_mono rne_error) simp
  also have "\<dots> = 2 powi (expo x - 53)"
    by (simp add: two_powi_half u_def)
  finally show ?thesis .
qed

lemma fl_rel_error:
  assumes "0 < x"
  shows "\<bar>fl x - x\<bar> \<le> x / 2 ^ 53"
proof -
  have "\<bar>fl x - x\<bar> \<le> 2 powi (expo x - 53)"
    using assms by (rule fl_abs_error)
  also have "(2::rat) powi (expo x - 53) = 2 powi expo x / 2 ^ 53"
    by (simp add: power_int_diff)
  also have "\<dots> \<le> x / 2 ^ 53"
    using expo_bounds [OF assms] by (simp add: divide_right_mono)
  finally show ?thesis .
qed

lemma fl_grid:
  assumes "0 < z" and "2 powi E \<le> z" and "z < 2 powi (E + 1)"
    and "h = of_int m * 2 powi (E - 52)" and "even m \<or> \<bar>z - h\<bar> < 2 powi (E - 53)"
    and "\<bar>z - h\<bar> \<le> 2 powi (E - 53)"
  shows "fl z = h"
proof -
  have e: "expo z = E"
    using assms(1-3) by (rule expo_unique)
  define u :: rat where "u = 2 powi (E - 52)"
  have u: "0 < u" by (simp add: u_def)
  have half: "(2::rat) powi (E - 53) = u / 2"
    by (simp add: two_powi_half u_def)
  have d: "z / u - of_int m = (z - h) / u"
    using u by (simp add: assms(4) u_def [symmetric] field_simps)
  have "\<bar>z / u - of_int m\<bar> = \<bar>z - h\<bar> / u"
    unfolding d using u by (simp add: abs_divide)
  then have le: "\<bar>z / u - of_int m\<bar> \<le> 1 / 2"
    and lt: "\<bar>z - h\<bar> < 2 powi (E - 53) \<Longrightarrow> \<bar>z / u - of_int m\<bar> < 1 / 2"
    using assms(6) u by (simp_all add: half field_simps)
  have "rne (z / u) = m"
  proof (cases "even m")
    case True
    then show ?thesis using le by (rule rne_even)
  next
    case False
    with assms(5) have "\<bar>z - h\<bar> < 2 powi (E - 53)" by simp
    then show ?thesis by (intro rne_close lt)
  qed
  then show ?thesis
    using assms(1) by (simp add: fl_pos e u_def assms(4))
qed

lemma fl_exact:
  assumes "0 < x" and "x = of_int m * 2 powi j" and "\<bar>m\<bar> < 2 ^ 53"
  shows "fl x = x"
proof -
  define e where "e = expo x"
  have b: "2 powi e \<le> x" "x < 2 powi (e + 1)"
    using expo_bounds [OF assms(1)] by (simp_all add: e_def)
  have "0 < of_int m * (2::rat) powi j"
    using assms(1,2) by simp
  then have "(0::rat) < of_int m"
    by (rule zero_less_mult_pos2) simp
  then have mpos: "0 < m" by simp
  have "(of_int m :: rat) < 2 ^ 53"
    using assms(3) mpos by (metis abs_of_pos of_int_less_numeral_power_cancel_iff)
  then have "x < 2 ^ 53 * 2 powi j"
    unfolding assms(2) by (intro mult_strict_right_mono) simp_all
  also have "(2::rat) ^ 53 * 2 powi j = 2 powi (j + 53)"
    by (simp add: power_int_add)
  finally have "(2::rat) powi e < 2 powi (j + 53)"
    using b(1) by linarith
  then have "e < j + 53" by (rule two_powi_less_imp)
  then have "0 \<le> j - e + 52" by simp
  define n where "n = nat (j - e + 52)"
  have n: "j = e - 52 + int n"
    using \<open>0 \<le> j - e + 52\<close> by (simp add: n_def)
  have x: "x = of_int (m * 2 ^ n) * 2 powi (e - 52)"
    unfolding assms(2) n by (simp add: power_int_add mult.assoc mult.commute)
  then have q: "x / 2 powi (e - 52) = of_int (m * 2 ^ n)"
    by simp
  have "fl x = of_int (rne (x / 2 powi (e - 52))) * 2 powi (e - 52)"
    using assms(1) by (simp only: fl_pos e_def)
  also have "\<dots> = of_int (m * 2 ^ n) * 2 powi (e - 52)"
    by (simp only: q rne_of_int)
  also have "\<dots> = x"
    by (simp only: x [symmetric])
  finally show ?thesis .
qed

lemma fl_of_int:
  assumes "0 \<le> k" and "k < 2 ^ 53"
  shows "fl (of_int k) = of_int k"
proof (cases "k = 0")
  case True
  then show ?thesis by (simp add: fl_def)
next
  case False
  with assms(1) have "(0::rat) < of_int k" by simp
  then show ?thesis
    using assms by (intro fl_exact [where m = k and j = 0]) simp_all
qed

lemma rne_fifth: "\<bar>of_int (rne (of_int N / 5)) - of_int N / 5\<bar> \<le> (2 / 5 :: rat)"
proof -
  define a r where "a = N div 5" and "r = N mod 5"
  have N: "N = 5 * a + r" and r: "0 \<le> r" "r < 5"
    by (simp_all add: a_def r_def)
  define y :: rat where "y = of_int N / 5"
  have x: "y = of_int a + of_int r / 5"
    by (simp add: y_def N)
  show ?thesis
  proof (cases "r \<le> 2")
    case True
    then have "(of_int r :: rat) \<le> 2" by simp
    moreover have "(0 :: rat) \<le> of_int r" using r by simp
    ultimately have d: "\<bar>y - of_int a\<bar> \<le> 2 / 5"
      by (simp add: x)
    then have "rne y = a"
      by (intro rne_close) linarith
    with d show ?thesis
      by (simp add: y_def [symmetric] abs_minus_commute)
  next
    case False
    then have "(3 :: rat) \<le> of_int r" by simp
    moreover have "(of_int r :: rat) \<le> 4" using r by simp
    ultimately have d: "\<bar>y - of_int (a + 1)\<bar> \<le> 2 / 5"
      by (simp add: x abs_le_iff)
    then have "rne y = a + 1"
      by (intro rne_close) linarith
    with d show ?thesis
      by (simp add: y_def [symmetric] abs_minus_commute)
  qed
qed

lemma tie_base: "fl (fl (1 / 20) * 10) = 1 / 2"
  by code_simp

lemma two_powi_nat: "0 \<le> e \<Longrightarrow> (2::rat) powi e = 2 ^ nat e"
  by (simp add: power_int_def)

lemma two_powi_add: "(2::rat) powi (a + b) = 2 powi a * 2 powi b"
  by (simp add: power_int_add)

lemma two_powi_le_imp: "(2::rat) powi a \<le> 2 powi b \<Longrightarrow> a \<le> b"
  using power_int_strict_increasing [of b a "2::rat"] by (cases "a \<le> b") auto

lemma tie_general:
  assumes "1 \<le> k" and "2 * k + 1 < 2 ^ 51"
  shows "fl (fl (of_int (2 * k + 1) / 20) * 10) = of_int (2 * k + 1) / 2"
proof -
  define c :: rat where "c = of_int (2 * k + 1) / 20"
  define h :: rat where "h = of_int (2 * k + 1) / 2"
  have hc: "h = 10 * c" by (simp add: h_def c_def)
  have kr: "(3::rat) \<le> of_int (2 * k + 1)" "(of_int (2 * k + 1) :: rat) < 2 ^ 51"
    using assms by (simp_all only: of_int_le_iff [symmetric, where ?'a = rat]
        of_int_less_iff [symmetric, where ?'a = rat]) simp_all
  have cpos: "0 < c" and hpos: "0 < h" and h32: "3 / 2 \<le> h" and h50: "h < 2 ^ 50"
    using kr by (simp_all add: c_def h_def)
  define e where "e = expo c"
  have eb: "2 powi e \<le> c" "c < 2 powi (e + 1)"
    using expo_bounds [OF cpos] by (simp_all add: e_def)
  have "c < 2 ^ 47" using kr by (simp add: c_def)
  then have "(2::rat) powi e < 2 powi 47" using eb(1) by simp
  then have e47: "e < 47" by (rule two_powi_less_imp)
  define u :: rat where "u = 2 powi (e - 52)"
  have upos: "0 < u" by (simp add: u_def)
  define N where "N = (2 * k + 1) * 2 ^ nat (50 - e)"
  have inv_u: "1 / u = 4 * 2 ^ nat (50 - e)"
  proof -
    have "1 / u = 2 powi (52 - e)"
      by (simp add: u_def power_int_minus [symmetric] divide_inverse)
    also have "52 - e = (50 - e) + 2" by simp
    also have "(2::rat) powi ((50 - e) + 2) = 2 powi (50 - e) * 4"
      by (simp only: two_powi_add) simp
    also have "(2::rat) powi (50 - e) = 2 ^ nat (50 - e)"
      using e47 by (intro two_powi_nat) simp
    finally show ?thesis by simp
  qed
  have cu: "c / u = of_int N / 5"
  proof -
    have "c / u = c * (1 / u)" by simp
    also have "\<dots> = of_int (2 * k + 1) / 20 * (4 * 2 ^ nat (50 - e))"
      by (simp only: inv_u c_def)
    also have "\<dots> = of_int N / 5"
      by (simp add: N_def)
    finally show ?thesis .
  qed
  have flc: "fl c = of_int (rne (c / u)) * u"
    using cpos by (simp add: fl_pos e_def u_def)
  have "fl c - c = (of_int (rne (c / u)) - c / u) * u"
    using upos by (simp add: flc algebra_simps)
  then have "\<bar>fl c - c\<bar> = \<bar>of_int (rne (c / u)) - c / u\<bar> * u"
    using upos by (simp add: abs_mult)
  also have "\<dots> \<le> 2 / 5 * u"
    unfolding cu using upos by (intro mult_right_mono rne_fifth) simp
  finally have err: "\<bar>fl c - c\<bar> \<le> 2 / 5 * u" .
  define z where "z = fl c * 10"
  have "z - h = 10 * (fl c - c)" by (simp add: z_def hc)
  then have "\<bar>z - h\<bar> = \<bar>10\<bar> * \<bar>fl c - c\<bar>" by (simp only: abs_mult)
  then have "\<bar>z - h\<bar> = 10 * \<bar>fl c - c\<bar>" by simp
  with err have zh: "\<bar>z - h\<bar> \<le> 4 * u" by simp
  have u4: "4 * u = 2 powi (e - 50)"
  proof -
    have "e - 50 = (e - 52) + 2" by simp
    then have "(2::rat) powi (e - 50) = 2 powi (e - 52) * 4"
      by (simp only: two_powi_add) simp
    then show ?thesis by (simp add: u_def)
  qed
  define E where "E = expo h"
  have Eb: "2 powi E \<le> h" "h < 2 powi (E + 1)"
    using expo_bounds [OF hpos] by (simp_all add: E_def)
  have "(2::rat) powi (e + 3) = 2 powi e * 8"
    by (simp only: two_powi_add) simp
  also have "\<dots> \<le> c * 8" using eb(1) by simp
  also have "\<dots> \<le> h" using cpos by (simp add: hc)
  finally have "(2::rat) powi (e + 3) < 2 powi (E + 1)" using Eb(2) by simp
  then have "e + 3 < E + 1" by (rule two_powi_less_imp)
  then have eE: "e - 50 \<le> E - 53" by simp
  have "(2::rat) powi 0 < 2 powi (E + 1)" using h32 Eb(2) by simp
  then have "0 < E + 1" by (rule two_powi_less_imp)
  then have E0: "0 \<le> E" by simp
  have "(2::rat) powi E < 2 powi 50" using h50 Eb(1) by simp
  then have E50: "E < 50" by (rule two_powi_less_imp)
  define n where "n = nat E"
  have En: "E = int n" using E0 by (simp add: n_def)
  have pE: "(2::rat) powi E = 2 ^ n" "(2::rat) powi (E + 1) = 2 ^ (n + 1)"
    by (simp_all add: En two_powi_add)
  have lo: "2 powi E + 1 / 2 \<le> h"
  proof -
    have "(2::rat) ^ (n + 1) \<le> of_int (2 * k + 1)"
      using Eb(1) by (simp add: pE h_def)
    then have "(of_int (2 ^ (n + 1)) :: rat) \<le> of_int (2 * k + 1)" by simp
    then have "(2::int) ^ (n + 1) \<le> 2 * k + 1" by (simp only: of_int_le_iff)
    moreover have "even ((2::int) ^ (n + 1))" by simp
    ultimately have "(2::int) ^ (n + 1) + 1 \<le> 2 * k + 1"
      by (metis even_add even_mult_iff even_numeral odd_one le_less zless_add1_eq add.commute
          less_add_one not_less order.not_eq_order_implies_strict)
    then have "(of_int (2 ^ (n + 1) + 1) :: rat) \<le> of_int (2 * k + 1)"
      by (simp only: of_int_le_iff)
    then show ?thesis by (simp add: pE h_def)
  qed
  have hi: "h \<le> 2 powi (E + 1) - 1 / 2"
  proof -
    have "(of_int (2 * k + 1) :: rat) < 2 ^ (n + 2)"
      using Eb(2) by (simp add: pE h_def)
    then have "(of_int (2 * k + 1) :: rat) < of_int (2 ^ (n + 2))" by simp
    then have "2 * k + 1 < (2::int) ^ (n + 2)" by (simp only: of_int_less_iff)
    then have "2 * k + 1 \<le> (2::int) ^ (n + 2) - 1" by simp
    then have "(of_int (2 * k + 1) :: rat) \<le> of_int (2 ^ (n + 2) - 1)"
      by (simp only: of_int_le_iff)
    then show ?thesis by (simp add: pE h_def)
  qed
  have small: "(2::rat) powi (E - 53) < 1 / 2"
  proof -
    have "(2::rat) powi (E - 53) < 2 powi (- 1)"
      using E50 by (intro power_int_strict_increasing) simp_all
    then show ?thesis by simp
  qed
  have zh': "\<bar>z - h\<bar> \<le> 2 powi (E - 53)"
  proof -
    have "(2::rat) powi (e - 50) \<le> 2 powi (E - 53)"
      using eE by (intro power_int_increasing) simp_all
    with zh u4 show ?thesis by simp
  qed
  have z1: "2 powi E \<le> z" and z2: "z < 2 powi (E + 1)"
    using zh' small lo hi by (simp_all add: abs_le_iff)
  have zpos: "0 < z"
    using z1 two_powi_pos [of E] by linarith
  define M where "M = (2 * k + 1) * 2 ^ nat (51 - E)"
  have "even M"
    using E50 by (simp add: M_def)
  have hM: "h = of_int M * 2 powi (E - 52)"
  proof -
    have "(2::rat) powi (- 1) = 2 powi (51 - E) * 2 powi (E - 52)"
      by (simp only: two_powi_add [symmetric]) simp
    moreover have "(2::rat) powi (51 - E) = 2 ^ nat (51 - E)"
      using E50 by (intro two_powi_nat) simp
    ultimately have "(1 / 2 :: rat) = 2 ^ nat (51 - E) * 2 powi (E - 52)"
      by simp
    then have "h = of_int (2 * k + 1) * (2 ^ nat (51 - E) * 2 powi (E - 52))"
      by (simp add: h_def)
    then show ?thesis by (simp add: M_def mult.assoc)
  qed
  have "fl z = h"
    using zpos z1 z2 hM _ zh' by (rule fl_grid) (simp add: \<open>even M\<close>)
  then show ?thesis
    by (simp add: z_def c_def h_def)
qed

lemma fl_zero [simp]: "fl 0 = 0"
  by (simp add: fl_def)

lemma double_round_tie:
  assumes "0 < S" and "0 < n" and "40 * S < 2 ^ 52" and "20 * S = n * (2 * k + 1)"
  shows "fl (fl (of_int S / of_int n) * 10) = of_int S / of_int n * 10"
proof -
  have npos: "(0::rat) < of_int n" using assms(2) by simp
  have "(of_int (20 * S) :: rat) = of_int (n * (2 * k + 1))"
    using assms(4) by (simp only:)
  then have q: "(of_int S / of_int n :: rat) = of_int (2 * k + 1) / 20"
    using npos by (simp add: field_simps)
  have "0 < n * (2 * k + 1)" using assms(1,4) by simp
  then have "0 < 2 * k + 1"
    using assms(2) by (simp add: zero_less_mult_iff)
  then have k0: "0 \<le> k" by simp
  have "2 * k + 1 \<le> n * (2 * k + 1)"
    using assms(2) \<open>0 < 2 * k + 1\<close> by (simp add: mult_le_cancel_right1)
  then have kb: "2 * k + 1 < 2 ^ 51"
    using assms(3,4) by simp
  have "fl (fl (of_int (2 * k + 1) / 20) * 10) = of_int (2 * k + 1) / 2"
  proof (cases "k = 0")
    case True
    then show ?thesis by (simp add: tie_base)
  next
    case False
    with k0 have "1 \<le> k" by simp
    then show ?thesis
      using kb by (rule tie_general)
  qed
  also have "(of_int (2 * k + 1) / 2 :: rat) = of_int (2 * k + 1) / 20 * 10"
    by simp
  finally show ?thesis
    unfolding q .
qed

lemma double_round_no_tie:
  assumes "0 < S" and "0 < n" and "40 * S < 2 ^ 52" and "\<And>k. 20 * S \<noteq> n * (2 * k + 1)"
  shows "rne (fl (fl (of_int S / of_int n) * 10)) = rne (of_int S / of_int n * 10)"
proof -
  define q :: rat where "q = of_int S / of_int n"
  define t :: rat where "t = q * 10"
  define K where "K = rne t"
  define N :: rat where "N = of_int n"
  have npos: "0 < N" using assms(2) by (simp add: N_def)
  have qpos: "0 < q" using assms(1) npos by (simp add: q_def N_def)
  have tn: "t * N = of_int (10 * S)"
    using npos by (simp add: t_def q_def N_def)
  \<comment> \<open>the distance of \<open>t\<close> to its nearest integer\<close>
  have "\<bar>of_int K - t\<bar> \<le> 1 / 2"
    unfolding K_def by (rule rne_error)
  then have "\<bar>of_int K - t\<bar> * (2 * N) \<le> 1 / 2 * (2 * N)"
    using npos by (intro mult_right_mono) simp_all
  moreover have "\<bar>of_int K - t\<bar> * (2 * N) = \<bar>of_int (2 * n * K - 20 * S)\<bar>"
  proof -
    have "\<bar>of_int K - t\<bar> * (2 * N) = \<bar>(of_int K - t) * (2 * N)\<bar>"
      using npos by (simp add: abs_mult)
    also have "(of_int K - t) * (2 * N) = 2 * N * of_int K - 2 * (t * N)"
      by (simp add: algebra_simps)
    also have "\<dots> = 2 * of_int n * of_int K - 2 * of_int (10 * S)"
      by (simp only: tn, simp only: N_def)
    also have "\<dots> = of_int (2 * n * K - 20 * S)"
      by simp
    finally show ?thesis .
  qed
  ultimately have "\<bar>(of_int (2 * n * K - 20 * S) :: rat)\<bar> \<le> of_int n"
    by (simp add: N_def)
  then have "(of_int \<bar>2 * n * K - 20 * S\<bar> :: rat) \<le> of_int n"
    by (simp only: of_int_abs)
  then have le: "\<bar>2 * n * K - 20 * S\<bar> \<le> n"
    by (simp only: of_int_le_iff)
  have ne: "\<bar>2 * n * K - 20 * S\<bar> \<noteq> n"
  proof
    assume "\<bar>2 * n * K - 20 * S\<bar> = n"
    then have "20 * S = n * (2 * K + 1) \<or> 20 * S = n * (2 * (K - 1) + 1)"
      by (auto simp: abs_if algebra_simps split: if_splits)
    with assms(4) show False by blast
  qed
  from le ne have "\<bar>2 * n * K - 20 * S\<bar> \<le> n - 1" by simp
  then have "(of_int \<bar>2 * n * K - 20 * S\<bar> :: rat) \<le> of_int (n - 1)"
    by (simp only: of_int_le_iff)
  then have "\<bar>of_int K - t\<bar> * (2 * N) \<le> N - 1"
    using \<open>\<bar>of_int K - t\<bar> * (2 * N) = \<bar>of_int (2 * n * K - 20 * S)\<bar>\<close>
    by (simp add: N_def)
  then have dK: "\<bar>of_int K - t\<bar> \<le> (N - 1) / (2 * N)"
    using npos by (simp add: pos_le_divide_eq)
  \<comment> \<open>the two rounding errors\<close>
  define m where "m = fl q"
  have e1: "\<bar>m - q\<bar> \<le> q / 2 ^ 53"
    unfolding m_def using qpos by (rule fl_rel_error)
  have "q / 2 ^ 53 < q" using qpos by simp
  with e1 have "\<bar>m - q\<bar> < q" by linarith
  then have mpos: "0 < m" and m2: "m \<le> 2 * q"
    by linarith+
  define p where "p = fl (m * 10)"
  have "\<bar>p - m * 10\<bar> \<le> m * 10 / 2 ^ 53"
    unfolding p_def using mpos by (intro fl_rel_error) simp
  also have "\<dots> \<le> 2 * q * 10 / 2 ^ 53"
    using m2 by (simp add: divide_right_mono)
  finally have e2: "\<bar>p - m * 10\<bar> \<le> 20 * q / 2 ^ 53" by simp
  have "m * 10 - q * 10 = (m - q) * 10"
    by (simp add: algebra_simps)
  moreover have "\<bar>(m - q) * 10\<bar> = \<bar>m - q\<bar> * \<bar>10\<bar>"
    by (rule abs_mult)
  moreover have "\<bar>10 :: rat\<bar> = 10" by simp
  ultimately have s: "\<bar>m * 10 - q * 10\<bar> = 10 * \<bar>m - q\<bar>"
    by (simp only: mult.commute)
  have "\<bar>p - t\<bar> \<le> \<bar>p - m * 10\<bar> + \<bar>m * 10 - q * 10\<bar>"
    unfolding t_def by linarith
  then have "\<bar>p - t\<bar> \<le> \<bar>p - m * 10\<bar> + 10 * \<bar>m - q\<bar>"
    by (simp only: s)
  also have "\<dots> \<le> 20 * q / 2 ^ 53 + 10 * (q / 2 ^ 53)"
    using e1 e2 by (intro add_mono mult_left_mono) simp_all
  also have "\<dots> = 3 * t / 2 ^ 53"
    by (simp add: t_def)
  finally have e3: "\<bar>p - t\<bar> \<le> 3 * t / 2 ^ 53" .
  have "(of_int (60 * S) :: rat) < of_int (2 ^ 53)"
    using assms(3) by (simp only: of_int_less_iff) simp
  then have "6 * (t * N) < 2 ^ 53"
    by (simp add: tn)
  then have "3 * t / 2 ^ 53 < 1 / (2 * N)"
    using npos by (simp add: field_simps)
  with e3 have dp: "\<bar>p - t\<bar> < 1 / (2 * N)" by simp
  define a b where "a = (N - 1) / (2 * N)" and "b = 1 / (2 * N)"
  have "a + b = 1 / 2"
    using npos by (simp add: a_def b_def field_simps)
  moreover have "\<bar>of_int K - t\<bar> \<le> a" "\<bar>p - t\<bar> < b"
    using dK dp by (simp_all only: a_def b_def)
  ultimately have "\<bar>p - of_int K\<bar> < 1 / 2"
    by linarith
  then have "rne p = K" by (rule rne_close)
  then show ?thesis
    by (simp add: p_def m_def q_def K_def t_def)
qed

lemma double_round:
  assumes "0 \<le> S" and "0 < n" and "40 * S < 2 ^ 52"
  shows "rne (fl (fl (of_int S / of_int n) * 10)) = rne (of_int S / of_int n * 10)"
proof (cases "S = 0")
  case True
  then show ?thesis by simp
next
  case False
  with assms(1) have S: "0 < S" by simp
  show ?thesis
  proof (cases "\<exists>k. 20 * S = n * (2 * k + 1)")
    case True
    then obtain k where "20 * S = n * (2 * k + 1)" ..
    with S assms(2,3) show ?thesis
      by (simp only: double_round_tie)
  next
    case False
    then have "\<And>k. 20 * S \<noteq> n * (2 * k + 1)" by blast
    with S assms(2,3) show ?thesis
      by (rule double_round_no_tie)
  qed
qed

lemma foldl_float64_exact:
  assumes "\<forall>v \<in> set ns. 0 \<le> v" and "0 \<le> a" and "a + sum_list ns < 2 ^ 53"
  shows "foldl (\<lambda>acc v. fl (acc + fl (of_int v))) (of_int a) ns = of_int (a + sum_list ns)"
  using assms
proof (induction ns arbitrary: a)
  case Nil
  then show ?case by simp
next
  case (Cons v ns)
  have v: "0 \<le> v" and rest: "\<forall>w \<in> set ns. 0 \<le> w"
    using Cons.prems(1) by simp_all
  have "0 \<le> sum_list ns"
    using rest by (simp add: sum_list_nonneg)
  then have b: "v < 2 ^ 53" "a + v < 2 ^ 53"
    using Cons.prems(2,3) v by simp_all
  have "fl (of_int a + fl (of_int v)) = fl (of_int (a + v))"
    using v b(1) by (simp add: fl_of_int)
  also have "\<dots> = of_int (a + v)"
    using v Cons.prems(2) b(2) by (intro fl_of_int) simp_all
  finally have step: "fl (of_int a + fl (of_int v)) = of_int (a + v)" .
  have "foldl (\<lambda>acc v. fl (acc + fl (of_int v))) (of_int (a + v)) ns
        = of_int (a + v + sum_list ns)"
    using rest v Cons.prems(2,3) by (intro Cons.IH) simp_all
  then show ?case
    by (simp add: step add.assoc)
qed

lemma float64_sum_exact:
  assumes "\<forall>v \<in> set ns. 0 \<le> v" and "sum_list ns < 2 ^ 53"
  shows "float64_sum ns = of_int (sum_list ns)"
  using foldl_float64_exact [of ns 0] assms by (simp add: float64_sum_def)

lemma float64_average:
  assumes "ns \<noteq> []" and "\<forall>v \<in> set ns. 0 \<le> v"
    and "40 * sum_list ns < 2 ^ 52" and "length ns < 2 ^ 53"
  shows "float64_round1 (float64_mean ns) =
         fl (of_int (rne (of_int (sum_list ns) / of_nat (length ns) * 10)) / 10)"
proof -
  define S where "S = sum_list ns"
  define n where "n = int (length ns)"
  have S0: "0 \<le> S" using assms(2) by (simp add: S_def sum_list_nonneg)
  have n0: "0 < n" using assms(1) by (simp add: n_def)
  have "sum_list ns < 2 ^ 53"
    using assms(3) S0 by (simp add: S_def)
  with assms(2) have "float64_sum ns = of_int S"
    unfolding S_def by (rule float64_sum_exact)
  moreover have "fl (of_nat (length ns)) = of_int n"
  proof -
    have "(of_nat (length ns) :: rat) = of_int n" by (simp add: n_def)
    moreover have "fl (of_int n) = of_int n"
      using n0 assms(4) by (intro fl_of_int) (simp_all add: n_def)
    ultimately show ?thesis by simp
  qed
  ultimately have m: "float64_mean ns = fl (of_int S / of_int n)"
    by (simp add: float64_mean_def)
  have "rne (fl (fl (of_int S / of_int n) * 10)) = rne (of_int S / of_int n * 10)"
    using S0 n0 assms(3) by (intro double_round) (simp_all add: S_def)
  then show ?thesis
    by (simp add: float64_round1_def m S_def n_def)
qed

section \<open>Evaluation on concrete tables\<close>

lemmas plain_defs = plain_pandas_def plain_numeric_def plain_int_def int64_def digits_def is_digit_def
  unsigned_def nat_of_digits_def log_line_def header_line_def numeric_cell_def int_cell_def


lemmas sample_defs = sample_jobs_def job_def alice_def alice_again_def carol_def

lemma sample_report:
  "dfCPFUsage plain_pandas sample_jobs [alice, carol] =
     [\<lparr>rep_USER_ID = ''u1'', Total = 8, Jobs = 2, Avg = 4,
       rep_User_Name = Some ''Alice'', rep_Email = Some ''a@x.com'', rep_Org = Some ''OrgA''\<rparr>,
      \<lparr>rep_USER_ID = ''u2'', Total = 10, Jobs = 1, Avg = 10,
       rep_User_Name = None, rep_Email = None, rep_Org = None\<rparr>]"
  by code_simp

lemma sample_run:
  "Log_Report_Generator plain_pandas ''2019-09-01'' ''2019-09-02'' sample_log [alice] = Inr sample_csv"
  by code_simp


section \<open>Claims\<close>



text \<open>
  C2, as the script has it. The average is a float64. For a single job of
  9007199254740993 addresses (\<open>2 ^ 53 + 1\<close>, which no double represents) the report
  has job count 1 and average 9007199254740992: not the job size divided by the count,
  rounded to one decimal place in whichever way.
\<close>

theorem huge_job_average:
  "NUM_SUBMITTED_REQUESTS huge_job = 9007199254740993 \<and>
   map (\<lambda>(k, t, j, a). (j, a)) (dfFinalReport plain_pandas [huge_job]) = [(1, 9007199254740992)]"
  by code_simp

text \<open>
  C2, amended. With the float64 mean and \<^verbatim>\<open>round(1)\<close>, for every user id \<open>u\<close> present
  in the filtered records whose job sizes are non-negative and add up to a total with
  \<open>40 * total < 2 ^ 52\<close>, in a record set of fewer than \<open>2 ^ 53\<close> rows, the report
  row of \<open>u\<close> has as job count the number of filtered records of \<open>u\<close>, as total the sum
  of their job sizes, and as average the double nearest to the total divided by the
  count and rounded half to even to one decimal place.
\<close>

theorem user_metrics:
  assumes "mean lib = float64_mean" and "round1 lib = float64_round1"
    and "u \<in> set (dropna (map USER_ID trimmed))"
    and "\<forall>v \<in> set (group_values trimmed u). 0 \<le> v"
    and "40 * sum_list (group_values trimmed u) < 2 ^ 52"
    and "length trimmed < 2 ^ 53"
  shows "\<exists>total jobs.
           jobs = length (filter (\<lambda>r. USER_ID r = Some u) trimmed) \<and>
           total = sum_list (map NUM_SUBMITTED_REQUESTS (filter (\<lambda>r. USER_ID r = Some u) trimmed)) \<and>
           filter (\<lambda>m. fst m = u) (dfFinalReport lib trimmed) =
             [(u, total, jobs, fl (of_int (rne (of_int total / of_nat jobs * 10)) / 10))]"
proof -
  let ?ns = "group_values trimmed u"
  let ?rs = "filter (\<lambda>r. USER_ID r = Some u) trimmed"
  have l: "length ?ns = length ?rs"
    by (simp add: group_values_def)
  have "count_list (dropna (map USER_ID trimmed)) u \<noteq> 0"
    using assms(3) by (simp add: count_list_0_iff)
  then have "?rs \<noteq> []"
    by (simp add: count_list_dropna)
  then have ne: "?ns \<noteq> []"
    by (simp add: group_values_def)
  have "length ?rs \<le> length trimmed" by simp
  with assms(6) have b: "length ?ns < 2 ^ 53"
    using l by linarith
  have "float64_round1 (float64_mean ?ns) =
        fl (of_int (rne (of_int (sum_list ?ns) / of_nat (length ?ns) * 10)) / 10)"
    using ne assms(4,5) b by (rule float64_average)
  then have "round1 lib (mean lib ?ns) =
        fl (of_int (rne (of_int (sum_list ?ns) / of_nat (length ?rs) * 10)) / 10)"
    by (simp only: assms(1,2) l)
  then show ?thesis
    using metrics_per_user [OF assms(3), of lib]
    by (simp add: group_values_def)
qed

theorem user_metrics_witness:
  "mean plain_pandas = float64_mean \<and> round1 plain_pandas = float64_round1 \<and>
   ''u1'' \<in> set (dropna (map USER_ID sample_jobs)) \<and>
   group_values sample_jobs ''u1'' = [5, 3] \<and>
   40 * sum_list [5, 3 :: int] < 2 ^ 52 \<and> length sample_jobs < 2 ^ 53 \<and>
   filter (\<lambda>m. fst m = ''u1'') (dfFinalReport plain_pandas sample_jobs) = [(''u1'', 8, 2, 4)]"
proof -
  have 1: "mean plain_pandas = float64_mean" "round1 plain_pandas = float64_round1"
    by (simp_all add: plain_pandas_def)
  have 2: "''u1'' \<in> set (dropna (map USER_ID sample_jobs))"
    by (simp add: sample_defs)
  have g: "group_values sample_jobs ''u1'' = [5, 3]"
    by (simp add: sample_defs group_values_def)
  have 3: "\<forall>v \<in> set (group_values sample_jobs ''u1''). 0 \<le> v"
    and 4: "40 * sum_list (group_values sample_jobs ''u1'') < 2 ^ 52"
    by (simp_all add: g)
  have 5: "length sample_jobs < 2 ^ 53"
    by (simp add: sample_jobs_def)
  have f: "filter (\<lambda>r. USER_ID r = Some ''u1'') sample_jobs =
           [job ''u1'' ''2019-09-01 00:00:00.000'' 5, job ''u1'' ''2019-09-02 00:00:00.000'' 3]"
    by (simp add: sample_defs)
  have v: "fl (of_int (rne 40) / 10) = 4"
    by code_simp
  from user_metrics [OF 1 2 3 4 5]
  have "filter (\<lambda>m. fst m = ''u1'') (dfFinalReport plain_pandas sample_jobs) = [(''u1'', 8, 2, 4)]"
    by (simp add: f job_def v)
  with 1 2 g 5 show ?thesis by simp
qed












text \<open>
  C8, as the script has it. \<^verbatim>\<open>value_counts\<close> leaves out a record whose \<^verbatim>\<open>USER_ID\<close> cell
  is missing: one such record in the window gives job counts that sum to 0, not to 1.
\<close>

theorem job_counts_sum_counterexample:
  "[anonymous_job] \<noteq> [] \<and>
   sum_list (map snd (seriesJobSubmissions [anonymous_job])) \<noteq> length [anonymous_job]"
  by (simp add: seriesJobSubmissions_def value_counts_def anonymous_job_def)

text \<open>
  C8, amended. For every filtered record set, empty or not, the job counts of
  \<^verbatim>\<open>seriesJobSubmissions\<close>, and likewise the \<^verbatim>\<open>Jobs\<close> column of \<^verbatim>\<open>dfFinalReport\<close>, sum to
  the number of filtered records that carry a \<^verbatim>\<open>USER_ID\<close>; that is the number of all
  filtered records when none lacks its user id.
\<close>

theorem job_counts_sum:
  "sum_list (map snd (seriesJobSubmissions trimmed)) =
     length (filter (\<lambda>r. USER_ID r \<noteq> None) trimmed) \<and>
   sum_list (map (\<lambda>(k, t, j, a). j) (dfFinalReport lib trimmed)) =
     length (filter (\<lambda>r. USER_ID r \<noteq> None) trimmed) \<and>
   ((\<forall>r \<in> set trimmed. USER_ID r \<noteq> None) \<longrightarrow>
      sum_list (map snd (seriesJobSubmissions trimmed)) = length trimmed \<and>
      sum_list (map (\<lambda>(k, t, j, a). j) (dfFinalReport lib trimmed)) = length trimmed)"
proof -
  let ?n = "length (filter (\<lambda>r. USER_ID r \<noteq> None) trimmed)"
  let ?ks = "dropna (map USER_ID trimmed)"
  have 1: "sum_list (map snd (seriesJobSubmissions trimmed)) = ?n"
    by (simp add: seriesJobSubmissions_def sum_value_counts length_dropna filter_map comp_def)
  have "map (\<lambda>(k, t, j, a). j) (dfFinalReport lib trimmed) =
        map (count_list ?ks) (group_keys trimmed)"
    by (simp add: dfFinalReport_eq comp_def count_list_dropna)
  then have "sum_list (map (\<lambda>(k, t, j, a). j) (dfFinalReport lib trimmed)) =
             sum (count_list ?ks) (set (group_keys trimmed))"
    by (simp add: sum_list_distinct_conv_sum_set distinct_group_keys)
  also have "\<dots> = length ?ks"
    by (simp add: set_group_keys sum_count_set)
  finally have 2: "sum_list (map (\<lambda>(k, t, j, a). j) (dfFinalReport lib trimmed)) = ?n"
    by (simp add: length_dropna filter_map comp_def)
  have 3: "?n = length trimmed" if "\<forall>r \<in> set trimmed. USER_ID r \<noteq> None"
    using that by simp
  show ?thesis
    using 1 2 3 by simp
qed

theorem job_counts_sum_witness:
  "USER_ID (job ''u1'' ''2019-09-01 00:00:00.000'' 5) \<noteq> None \<and>
   USER_ID (job ''u1'' ''2019-09-02 00:00:00.000'' 3) \<noteq> None \<and>
   USER_ID (job ''u2'' ''2019-09-01 00:00:00.000'' 10) \<noteq> None \<and>
   sum_list (map snd (seriesJobSubmissions sample_jobs)) = 3 \<and>
   sum_list (map (\<lambda>(k, t, j, a). j) (dfFinalReport plain_pandas sample_jobs)) = 3"
proof -
  have h: "\<forall>r \<in> set sample_jobs. USER_ID r \<noteq> None"
    by (simp add: sample_defs)
  have l: "length sample_jobs = 3"
    by (simp add: sample_jobs_def)
  from job_counts_sum [of sample_jobs plain_pandas] h l
  have "sum_list (map snd (seriesJobSubmissions sample_jobs)) = 3 \<and>
        sum_list (map (\<lambda>(k, t, j, a). j) (dfFinalReport plain_pandas sample_jobs)) = 3"
    by simp
  then show ?thesis by (simp add: job_def)
qed


text \<open>
  C10. If no row of the log survives the numeric filter of step 5 (before any date
  filtering), the script aborts with IndexError at the print of line 176, whatever the
  dates and the look-up table are; no report is produced.
\<close>

theorem empty_log_IndexError:
  "filter (numeric_cell lib) merged = [] \<Longrightarrow>
   Log_Report_Generator lib startDate endDate merged lookup = Inl IndexError"
  by (simp add: Log_Report_Generator_eq)

theorem empty_log_IndexError_witness:
  "filter (numeric_cell plain_pandas) [header_line, header_line] = [] \<and>
   Log_Report_Generator plain_pandas ''2019-09-01'' ''2019-09-02'' [header_line, header_line]
     ([] :: string lookup_row list) = Inl IndexError"
proof -
  have h: "filter (numeric_cell plain_pandas) [header_line, header_line] = []"
    by (simp add: plain_defs)
  show ?thesis
    using h empty_log_IndexError [OF h] by simp
qed

end
